theory Spec2Isabelle
  imports Main "HOL-Library.Sublist"
begin

section \<open>Text\<close>

text \<open>
  A Python \<open>str\<close> is modelled as a \<^typ>\<open>string\<close>, one \<^typ>\<open>char\<close> per code point, so
  \<open>len\<close> is \<^const>\<open>length\<close>. The development covers text whose code points are below
  256, the range of \<^typ>\<open>char\<close>; on that range the built-ins below are Python's.
\<close>

definition isspace :: "char \<Rightarrow> bool" where
  \<comment> \<open>\<open>str.isspace\<close> on one character: the code points 9-13, 28-32, 133 and 160.\<close>
  "isspace c = (let n = (of_char c :: nat) in
     (9 \<le> n \<and> n \<le> 13) \<or> (28 \<le> n \<and> n \<le> 32) \<or> n = 133 \<or> n = 160)"

definition strip :: "string \<Rightarrow> string" where
  \<comment> \<open>\<open>s.strip()\<close>: leading and trailing whitespace removed.\<close>
  "strip s = rev (dropWhile isspace (rev (dropWhile isspace s)))"

fun join :: "string \<Rightarrow> string list \<Rightarrow> string" where
  \<comment> \<open>\<open>sep.join(xs)\<close>\<close>
  "join sep [] = []"
| "join sep [x] = x"
| "join sep (x # y # ys) = x @ sep @ join sep (y # ys)"

definition digit_char :: "nat \<Rightarrow> char" where
  "digit_char d = ''0123456789'' ! d"

fun str_nat :: "nat \<Rightarrow> string" where
  \<comment> \<open>\<open>str(n)\<close> for a non-negative integer: its decimal digits. (Identifiers and counts stay
      far below the 4300 digits from which the interpreter refuses the conversion.)\<close>
  "str_nat n = (if n < 10 then [digit_char n] else str_nat (n div 10) @ [digit_char (n mod 10)])"

declare str_nat.simps [simp del]

section \<open>Report formatter\<close>

definition EMBED_FIELD_LIMIT :: nat where
  "EMBED_FIELD_LIMIT = 1024"

definition EMBED_MAX_FIELDS :: nat where
  "EMBED_MAX_FIELDS = 25"

type_synonym field = "string \<times> string"

definition field_name :: "string \<Rightarrow> nat \<Rightarrow> string" where
  \<comment> \<open>\<open>f"{field_name_prefix} {len(fields)+1}"\<close>, given \<open>len(fields)\<close>\<close>
  "field_name field_name_prefix n = field_name_prefix @ '' '' @ str_nat (n + 1)"

fun chunk_loop :: "string \<Rightarrow> string list \<Rightarrow> field list \<Rightarrow> string list \<Rightarrow> nat \<Rightarrow> field list" where
  \<comment> \<open>the \<open>for line in lines\<close> loop of \<open>chunk_lines_into_fields\<close> and the flush after it,
      on the loop variables \<open>fields\<close>, \<open>buf\<close>, \<open>buf_len\<close>\<close>
  "chunk_loop pfx [] fields buf buf_len =
     (if buf \<noteq> [] then fields @ [(field_name pfx (length fields), join ''\<newline>'' buf)] else fields)"
| "chunk_loop pfx (l # ls) fields buf buf_len =
     (let line = strip l in
      if line = [] then chunk_loop pfx ls fields buf buf_len
      else
        let add_len = length line + (if buf \<noteq> [] then 1 else 0) in
        if buf_len + add_len > EMBED_FIELD_LIMIT
        then chunk_loop pfx ls (fields @ [(field_name pfx (length fields), join ''\<newline>'' buf)])
               [line] (length line)
        else chunk_loop pfx ls fields (buf @ [line]) (buf_len + add_len))"

definition chunk_lines_into_fields :: "string list \<Rightarrow> string \<Rightarrow> field list" where
  "chunk_lines_into_fields lines field_name_prefix = chunk_loop field_name_prefix lines [] [] 0"


section \<open>Exceptions\<close>

text \<open>
  The exceptions that reach the code. \<open>discord.Forbidden\<close> is a subclass of
  \<open>discord.HTTPException\<close>; \<open>HTTPException\<close> below stands for every other instance of that
  class, and \<open>OtherException\<close> for an exception outside it (a connection error, say).
\<close>

datatype py_exc = Forbidden | HTTPException | ValueError | OverflowError | OtherException

definition isinstance_HTTPException :: "py_exc \<Rightarrow> bool" where
  "isinstance_HTTPException e = (e = Forbidden \<or> e = HTTPException)"

section \<open>The chat platform's objects\<close>

record user =
  user_id :: nat

record message =
  msg_id :: nat
  mentions :: "nat list"  \<comment> \<open>the ids of \<open>msg.mentions\<close>; users compare equal by id\<close>
  content :: string
  jump_url :: string

text \<open>
  One run of the asynchronous iterator \<open>history(limit=..., after=...)\<close>: the messages
  it yields, then how it ends: normally, or by raising.
\<close>

record history_run =
  yielded :: "message list"
  raised :: "py_exc option"

record thread =
  th_id :: nat
  th_locked :: bool
  th_history :: "int \<Rightarrow> int option \<Rightarrow> history_run"  \<comment> \<open>by \<open>limit\<close> and \<open>after\<close>\<close>

record text_channel =
  ch_id :: nat
  ch_history :: "int \<Rightarrow> int option \<Rightarrow> history_run"
  ch_threads :: "thread list"

record category =
  cat_id :: nat
  cat_name :: string
  text_channels :: "text_channel list"

datatype guild_channel = CategoryChannel category | TextChannel text_channel | OtherChannel nat

record guild =
  get_channel :: "nat \<Rightarrow> guild_channel option"
  categories :: "category list"

section \<open>History scanner\<close>

fun py_in :: "string \<Rightarrow> string \<Rightarrow> bool" where
  \<comment> \<open>\<open>needle in haystack\<close> on strings\<close>
  "py_in needle [] = (needle = [])"
| "py_in needle (c # cs) = (prefix needle (c # cs) \<or> py_in needle cs)"

fun channel_hits_loop :: "user \<Rightarrow> message list \<Rightarrow> message list \<Rightarrow> message list" where
  \<comment> \<open>the body of \<open>async for msg in channel.history(**kwargs)\<close> over the yielded messages\<close>
  "channel_hits_loop u [] hits = hits"
| "channel_hits_loop u (msg # rest) hits =
     (if user_id u \<in> set (mentions msg) then channel_hits_loop u rest (hits @ [msg])
      else if py_in (''<@'' @ str_nat (user_id u) @ ''>'') (content msg)
              \<or> py_in (''<@!'' @ str_nat (user_id u) @ ''>'') (content msg)
      then channel_hits_loop u rest (hits @ [msg])
      else channel_hits_loop u rest hits)"

definition search_channel_for_mentions ::
  "text_channel \<Rightarrow> user \<Rightarrow> int option \<Rightarrow> int \<Rightarrow> py_exc + message list" where
  \<comment> \<open>\<open>_search_channel_for_mentions\<close>: \<open>hits\<close> lives outside the \<open>try\<close>, so what was collected
      before a caught exception is returned\<close>
  "search_channel_for_mentions channel u after_dt per_channel_limit =
     (let run = ch_history channel per_channel_limit after_dt;
          hits = channel_hits_loop u (yielded run) []
      in case raised run of
           None \<Rightarrow> Inr hits
         | Some e \<Rightarrow>
             if e = Forbidden then Inr hits
             else if isinstance_HTTPException e then Inr hits
             else Inl e)"

fun thread_hits_loop :: "user \<Rightarrow> message list \<Rightarrow> message list \<Rightarrow> message list" where
  \<comment> \<open>the body of \<open>async for msg in th.history(**kwargs)\<close>\<close>
  "thread_hits_loop u [] th_hits = th_hits"
| "thread_hits_loop u (msg # rest) th_hits =
     (if user_id u \<in> set (mentions msg)
         \<or> py_in (''<@'' @ str_nat (user_id u) @ ''>'') (content msg)
         \<or> py_in (''<@!'' @ str_nat (user_id u) @ ''>'') (content msg)
      then thread_hits_loop u rest (th_hits @ [msg])
      else thread_hits_loop u rest th_hits)"

fun threads_loop ::
  "user \<Rightarrow> int option \<Rightarrow> int \<Rightarrow> thread list \<Rightarrow> (thread \<times> message list) list
     \<Rightarrow> py_exc + (thread \<times> message list) list" where
  \<comment> \<open>\<open>for th in channel.threads\<close>: \<open>th_hits\<close> lives inside the \<open>try\<close>, so a caught exception
      drops the thread\<close>
  "threads_loop u after_dt per_thread_limit [] results = Inr results"
| "threads_loop u after_dt per_thread_limit (th # ths) results =
     (if th_locked th then threads_loop u after_dt per_thread_limit ths results
      else
        let run = th_history th per_thread_limit after_dt;
            th_hits = thread_hits_loop u (yielded run) []
        in case raised run of
             Some e \<Rightarrow>
               if e = Forbidden \<or> isinstance_HTTPException e
               then threads_loop u after_dt per_thread_limit ths results
               else Inl e
           | None \<Rightarrow>
               if th_hits \<noteq> []
               then threads_loop u after_dt per_thread_limit ths (results @ [(th, th_hits)])
               else threads_loop u after_dt per_thread_limit ths results)"

definition search_active_threads_for_mentions ::
  "text_channel \<Rightarrow> user \<Rightarrow> int option \<Rightarrow> int \<Rightarrow> py_exc + (thread \<times> message list) list" where
  "search_active_threads_for_mentions channel u after_dt per_thread_limit =
     threads_loop u after_dt per_thread_limit (ch_threads channel) []"


section \<open>Category resolver\<close>

fun split_comma :: "string \<Rightarrow> string list" where
  \<comment> \<open>\<open>spec.split(",")\<close>\<close>
  "split_comma [] = [[]]"
| "split_comma (c # cs) =
     (if c = CHR '','' then [] # split_comma cs
      else (let r = split_comma cs in (c # hd r) # tl r))"

definition isdigit_char :: "char \<Rightarrow> bool" where
  \<comment> \<open>the characters \<open>str.isdigit\<close> accepts: the decimal digits and the superscripts
      two, three and one (code points 178, 179, 185)\<close>
  "isdigit_char c = (let n = (of_char c :: nat) in
     (48 \<le> n \<and> n \<le> 57) \<or> n = 178 \<or> n = 179 \<or> n = 185)"

definition isdigit :: "string \<Rightarrow> bool" where
  \<comment> \<open>\<open>p.isdigit()\<close>: false on the empty string\<close>
  "isdigit p = (p \<noteq> [] \<and> list_all isdigit_char p)"

definition isdecimal_char :: "char \<Rightarrow> bool" where
  "isdecimal_char c = (let n = (of_char c :: nat) in 48 \<le> n \<and> n \<le> 57)"

definition py_int :: "string \<Rightarrow> py_exc + nat" where
  \<comment> \<open>\<open>int(p)\<close> for a \<open>p\<close> with \<open>p.isdigit()\<close>: the base-10 value when every character is a
      decimal digit and there are at most 4300 of them (the interpreter's default limit for
      the conversion, leading zeros counted), \<open>ValueError\<close> otherwise; a superscript digit is no
      decimal literal\<close>
  "py_int p =
     (if p \<noteq> [] \<and> list_all isdecimal_char p \<and> length p \<le> 4300
      then Inr (foldl (\<lambda>a c. 10 * a + (of_char c - 48)) 0 p)
      else Inl ValueError)"

definition lower_char :: "char \<Rightarrow> char" where
  "lower_char c = (let n = (of_char c :: nat) in
     if (65 \<le> n \<and> n \<le> 90) \<or> (192 \<le> n \<and> n \<le> 222 \<and> n \<noteq> 215) then char_of (n + 32) else c)"

definition lower :: "string \<Rightarrow> string" where
  \<comment> \<open>\<open>s.lower()\<close>\<close>
  "lower s = map lower_char s"

definition parts_of :: "string \<Rightarrow> string list" where
  \<comment> \<open>\<open>[p.strip() for p in spec.split(",") if p.strip()]\<close>\<close>
  "parts_of spec = map strip (filter (\<lambda>p. strip p \<noteq> []) (split_comma spec))"

fun ids_pass ::
  "guild \<Rightarrow> string list \<Rightarrow> nat set \<Rightarrow> category list \<Rightarrow> py_exc + (nat set \<times> category list)" where
  \<comment> \<open>first pass, on \<open>seen\<close> and \<open>out\<close>\<close>
  "ids_pass g [] seen out = Inr (seen, out)"
| "ids_pass g (p # ps) seen out =
     (if isdigit p then
        (case py_int p of
           Inl e \<Rightarrow> Inl e
         | Inr n \<Rightarrow>
            (case get_channel g n of
               Some (CategoryChannel ch) \<Rightarrow>
                 if cat_id ch \<notin> seen then ids_pass g ps (insert (cat_id ch) seen) (out @ [ch])
                 else ids_pass g ps seen out
             | _ \<Rightarrow> ids_pass g ps seen out))
      else ids_pass g ps seen out)"

fun names_inner ::
  "string \<Rightarrow> category list \<Rightarrow> nat set \<Rightarrow> category list \<Rightarrow> nat set \<times> category list" where
  \<comment> \<open>\<open>for cat in guild.categories\<close> of the second pass\<close>
  "names_inner p [] seen out = (seen, out)"
| "names_inner p (cat # cats) seen out =
     (if lower (cat_name cat) = lower p \<and> cat_id cat \<notin> seen
      then names_inner p cats (insert (cat_id cat) seen) (out @ [cat])
      else names_inner p cats seen out)"

fun names_pass ::
  "guild \<Rightarrow> string list \<Rightarrow> nat set \<Rightarrow> category list \<Rightarrow> nat set \<times> category list" where
  \<comment> \<open>second pass\<close>
  "names_pass g [] seen out = (seen, out)"
| "names_pass g (p # ps) seen out =
     (if isdigit p then names_pass g ps seen out
      else (case names_inner p (categories g) seen out of
              (seen', out') \<Rightarrow> names_pass g ps seen' out'))"

definition parse_category_spec :: "guild \<Rightarrow> string \<Rightarrow> py_exc + category list" where
  \<comment> \<open>\<open>_parse_category_spec\<close>\<close>
  "parse_category_spec g spec =
     (if spec = [] then Inr []
      else
        let parts = parts_of spec in
        case ids_pass g parts {} [] of
          Inl e \<Rightarrow> Inl e
        | Inr (seen, out) \<Rightarrow> Inr (snd (names_pass g parts seen out)))"

text \<open>The resolver as the specification words it, for comparison with the code.\<close>

fun dedup_by_id :: "nat set \<Rightarrow> category list \<Rightarrow> category list" where
  \<comment> \<open>keeps the first category of each identifier not in \<open>seen\<close>\<close>
  "dedup_by_id seen [] = []"
| "dedup_by_id seen (c # cs) =
     (if cat_id c \<in> seen then dedup_by_id seen cs
      else c # dedup_by_id (insert (cat_id c) seen) cs)"

definition id_matches :: "guild \<Rightarrow> string \<Rightarrow> category list" where
  \<comment> \<open>what a numeric token resolves to: the category with that identifier, if any\<close>
  "id_matches g p =
     (case py_int p of
        Inr n \<Rightarrow> (case get_channel g n of Some (CategoryChannel ch) \<Rightarrow> [ch] | _ \<Rightarrow> [])
      | Inl _ \<Rightarrow> [])"

definition name_matches :: "guild \<Rightarrow> string \<Rightarrow> category list" where
  \<comment> \<open>what a name token resolves to: the categories of that name, case ignored\<close>
  "name_matches g p = filter (\<lambda>cat. lower (cat_name cat) = lower p) (categories g)"

definition resolve_spec :: "guild \<Rightarrow> string \<Rightarrow> category list" where
  \<comment> \<open>all matches of the numeric tokens, then all matches of the other tokens, each in
      token order; deduplicated, first occurrence kept\<close>
  "resolve_spec g spec =
     dedup_by_id {}
       (concat (map (id_matches g) (filter isdigit (parts_of spec)))
        @ concat (map (name_matches g) (filter (\<lambda>p. \<not> isdigit p) (parts_of spec))))"


section \<open>The find-collabs command\<close>

text \<open>
  The report lines carry five decorations. In the source they are string literals with code
  points above 255 (U+20AC, U+201D, U+2020, U+0178), which \<^typ>\<open>char\<close> cannot hold, so they
  are parameters of the formatter: a bullet before a channel, a dash before the count, an
  ellipsis after more than three links, and an arrow and a spool before a thread.
\<close>

record decor =
  bullet :: string
  dash :: string
  ellipsis :: string
  arrow :: string
  spool :: string

definition MAX_LINES :: nat where
  "MAX_LINES = 40"

definition truncation_note :: string where
  "truncation_note = ''_Output truncated; see attachment for the full list._''"

definition sample_links :: "message list \<Rightarrow> string" where
  \<comment> \<open>\<open>", ".join(f"[link]({m.jump_url})" for m in hits[:3])\<close>\<close>
  "sample_links hits = join '', '' (map (\<lambda>m. ''[link]('' @ jump_url m @ '')'') (take 3 hits))"

definition category_line :: "category \<Rightarrow> string" where
  "category_line cat = ''**Category:** '' @ cat_name cat @ '' (`'' @ str_nat (cat_id cat) @ ''`)''"

definition channel_line :: "decor \<Rightarrow> text_channel \<Rightarrow> message list \<Rightarrow> string" where
  "channel_line d ch hits =
     bullet d @ '' <#'' @ str_nat (ch_id ch) @ ''> '' @ dash d @ '' '' @ str_nat (length hits)
       @ '' mention(s): '' @ sample_links hits
       @ (if length hits > 3 then '' '' @ ellipsis d else [])"

definition thread_line :: "decor \<Rightarrow> thread \<Rightarrow> message list \<Rightarrow> string" where
  "thread_line d th th_msgs =
     ''   '' @ arrow d @ '' '' @ spool d @ '' <#'' @ str_nat (th_id th) @ ''> '' @ dash d @ '' ''
       @ str_nat (length th_msgs) @ '' mention(s): '' @ sample_links th_msgs
       @ (if length th_msgs > 3 then '' '' @ ellipsis d else [])"

record scan_state =
  total_hits :: nat
  lines :: "string list"

fun add_thread_hits ::
  "decor \<Rightarrow> (thread \<times> message list) list \<Rightarrow> scan_state \<Rightarrow> scan_state" where
  \<comment> \<open>\<open>for th, th_msgs in thread_hits\<close>\<close>
  "add_thread_hits d [] st = st"
| "add_thread_hits d ((th, th_msgs) # rest) st =
     add_thread_hits d rest
       \<lparr>total_hits = total_hits st + length th_msgs,
        lines = lines st @ [thread_line d th th_msgs]\<rparr>"

datatype flow = Continue | Break

definition channel_body ::
  "decor \<Rightarrow> user \<Rightarrow> int option \<Rightarrow> int \<Rightarrow> bool \<Rightarrow> category \<Rightarrow> text_channel \<Rightarrow> bool \<Rightarrow> scan_state
     \<Rightarrow> py_exc + (flow \<times> bool \<times> scan_state)" where
  \<comment> \<open>one round of \<open>for ch in cat.text_channels\<close>, on \<open>cat_header_added\<close>, \<open>total_hits\<close> and
      \<open>lines\<close>; the test against \<open>MAX_LINES\<close> is inside \<open>if hits\<close>\<close>
  "channel_body d invoker after_dt per_channel_limit include_threads cat ch cat_header_added st =
     (case search_channel_for_mentions ch invoker after_dt per_channel_limit of
        Inl e \<Rightarrow> Inl e
      | Inr hits \<Rightarrow>
          if hits = [] then Inr (Continue, cat_header_added, st)
          else
            let st1 = st\<lparr>total_hits := total_hits st + length hits\<rparr>;
                st2 = (if \<not> cat_header_added
                       then st1\<lparr>lines := lines st1 @ [category_line cat]\<rparr> else st1);
                st3 = st2\<lparr>lines := lines st2 @ [channel_line d ch hits]\<rparr>
            in case (if include_threads
                     then (case search_active_threads_for_mentions ch invoker after_dt
                                  (min per_channel_limit 100) of
                             Inl e \<Rightarrow> Inl e
                           | Inr thread_hits \<Rightarrow> Inr (add_thread_hits d thread_hits st3))
                     else Inr st3) of
                 Inl e \<Rightarrow> Inl e
               | Inr st4 \<Rightarrow>
                   if length (lines st4) \<ge> MAX_LINES
                   then Inr (Break, True, st4\<lparr>lines := lines st4 @ [truncation_note]\<rparr>)
                   else Inr (Continue, True, st4))"

fun channels_loop ::
  "decor \<Rightarrow> user \<Rightarrow> int option \<Rightarrow> int \<Rightarrow> bool \<Rightarrow> category \<Rightarrow> text_channel list \<Rightarrow> bool \<Rightarrow> scan_state
     \<Rightarrow> py_exc + scan_state" where
  \<comment> \<open>\<open>for ch in cat.text_channels\<close>\<close>
  "channels_loop d invoker after_dt lim inc cat [] hdr st = Inr st"
| "channels_loop d invoker after_dt lim inc cat (ch # chs) hdr st =
     (case channel_body d invoker after_dt lim inc cat ch hdr st of
        Inl e \<Rightarrow> Inl e
      | Inr (Break, hdr', st') \<Rightarrow> Inr st'
      | Inr (Continue, hdr', st') \<Rightarrow> channels_loop d invoker after_dt lim inc cat chs hdr' st')"

fun categories_loop ::
  "decor \<Rightarrow> user \<Rightarrow> int option \<Rightarrow> int \<Rightarrow> bool \<Rightarrow> category list \<Rightarrow> scan_state \<Rightarrow> py_exc + scan_state" where
  \<comment> \<open>\<open>for cat in target_categories\<close>\<close>
  "categories_loop d invoker after_dt lim inc [] st = Inr st"
| "categories_loop d invoker after_dt lim inc (cat # cats) st =
     (case channels_loop d invoker after_dt lim inc cat (text_channels cat) False st of
        Inl e \<Rightarrow> Inl e
      | Inr st' \<Rightarrow>
          if length (lines st') \<ge> MAX_LINES then Inr st'
          else categories_loop d invoker after_dt lim inc cats st')"

subsection \<open>The reply\<close>

definition utf8_encode_char :: "char \<Rightarrow> nat list" where
  \<comment> \<open>UTF-8 of a code point below 256: one byte below 128, two bytes from there\<close>
  "utf8_encode_char c = (let n = (of_char c :: nat) in
     if n < 128 then [n] else [192 + n div 64, 128 + n mod 64])"

definition utf8_encode :: "string \<Rightarrow> nat list" where
  \<comment> \<open>\<open>s.encode("utf-8")\<close>, as a list of bytes\<close>
  "utf8_encode s = concat (map utf8_encode_char s)"


record embed_field =
  name :: string
  val :: string
  inline :: bool

record embed =
  title :: string
  description :: string
  embed_fields :: "embed_field list"  \<comment> \<open>\<open>embed.fields\<close>\<close>

record discord_file =  \<comment> \<open>\<open>discord.File\<close>\<close>
  filename :: string
  fp :: "nat list"

datatype reply = Send_text string | Send_embed embed "discord_file option"

definition str_int :: "int \<Rightarrow> string" where
  "str_int i = (if i < 0 then ''-'' @ str_nat (nat (- i)) else str_nat (nat i))"

definition note_field :: embed_field where
  "note_field =
     \<lparr>name = ''Note'',
      val = ''Output truncated in embed; see attached `mentions_report.txt` for the full list.'',
      inline = False\<rparr>"

definition add_fields :: "field list \<Rightarrow> embed \<Rightarrow> embed" where
  \<comment> \<open>\<open>for name, value in fs: embed.add_field(name=name, value=value, inline=False)\<close>\<close>
  "add_fields fs e =
     e\<lparr>embed_fields := embed_fields e @ map (\<lambda>(n, v). \<lparr>name = n, val = v, inline = False\<rparr>) fs\<rparr>"

definition build_report :: "user \<Rightarrow> int \<Rightarrow> nat \<Rightarrow> string list \<Rightarrow> reply" where
  \<comment> \<open>the end of \<open>find_collabs\<close>, from \<open>embed = discord.Embed(...)\<close> to the send\<close>
  "build_report invoker days n_hits ls =
     (let e = \<lparr>title = ''Mentions Found'',
               description = ''Found **'' @ str_nat n_hits @ ''** mention(s) for <@''
                 @ str_nat (user_id invoker) @ ''> in the last **'' @ str_int days @ ''** day(s).'',
               embed_fields = []\<rparr>;
          fs = chunk_lines_into_fields ls ''Results''
      in if length fs \<ge> EMBED_MAX_FIELDS then
           let full_text = join ''\<newline>'' ls;
               file_obj = \<lparr>filename = ''mentions_report.txt'', fp = utf8_encode full_text\<rparr>;
               kept = min 10 (EMBED_MAX_FIELDS - 1);
               e1 = add_fields (take kept fs) e;
               e2 = e1\<lparr>embed_fields := embed_fields e1 @ [note_field]\<rparr>
           in Send_embed e2 (Some file_obj)
         else Send_embed (add_fields fs e) None)"

definition DAY :: int where
  \<comment> \<open>a day in microseconds; a \<open>datetime\<close> is the number of microseconds since the start of
      year 1\<close>
  "DAY = 86400000000"

definition find_collabs ::
  "decor \<Rightarrow> guild option \<Rightarrow> user \<Rightarrow> int \<Rightarrow> string \<Rightarrow> int \<Rightarrow> int \<Rightarrow> bool \<Rightarrow> py_exc + reply" where
  \<comment> \<open>\<open>find_collabs\<close>, given the decorations, the guild and the user of the interaction and
      the clock's \<open>now\<close>; \<open>timedelta\<close> and the subtraction raise \<open>OverflowError\<close> out of range\<close>
  "find_collabs d g invoker now categories_spec days per_channel_limit include_threads =
     (case g of
        None \<Rightarrow> Inr (Send_text ''This command must be used in a server.'')
      | Some guild \<Rightarrow>
          (case (if strip categories_spec \<noteq> [] then parse_category_spec guild categories_spec
                 else Inr (categories guild)) of
             Inl e \<Rightarrow> Inl e
           | Inr target_categories \<Rightarrow>
               if strip categories_spec \<noteq> [] \<and> target_categories = []
               then Inr (Send_text (''I couldn't match any categories from your input. ''
                          @ ''Provide comma-separated category names or IDs.''))
               else if max 0 days > 999999999 \<or> now - max 0 days * DAY < 0 then Inl OverflowError
               else
                 (case categories_loop d invoker (Some (now - max 0 days * DAY)) per_channel_limit
                         include_threads target_categories \<lparr>total_hits = 0, lines = []\<rparr> of
                    Inl e \<Rightarrow> Inl e
                  | Inr st \<Rightarrow>
                      if total_hits st = 0
                      then Inr (Send_text
                        ''No pings found for you in the selected categories and time window.'')
                      else Inr (build_report invoker days (total_hits st) (lines st)))))"

section \<open>Agent gateway\<close>








section \<open>Notions of the specification and example inputs\<close>

definition nonblank :: "string list \<Rightarrow> string list" where
  \<comment> \<open>the trimmed lines that are not blank, in order\<close>
  "nonblank ls = filter (\<lambda>x. x \<noteq> []) (map strip ls)"

definition long_line :: string where
  "long_line = replicate 1025 (CHR ''a'')"

definition is_mention :: "user \<Rightarrow> message \<Rightarrow> bool" where
  \<comment> \<open>a mention as the specification words it: the user is in the structured mention list, or
      the text contains one of the two textual forms\<close>
  "is_mention u msg =
     (user_id u \<in> set (mentions msg)
      \<or> sublist (''<@'' @ str_nat (user_id u) @ ''>'') (content msg)
      \<or> sublist (''<@!'' @ str_nat (user_id u) @ ''>'') (content msg))"

definition thread_hits :: "user \<Rightarrow> int option \<Rightarrow> int \<Rightarrow> thread \<Rightarrow> message list" where
  \<comment> \<open>the mentions among the messages a thread's history yields\<close>
  "thread_hits u after_dt lim th = filter (is_mention u) (yielded (th_history th lim after_dt))"

definition thread_reported :: "user \<Rightarrow> int option \<Rightarrow> int \<Rightarrow> thread \<Rightarrow> bool" where
  \<comment> \<open>not locked, scanned to the end without an exception, with at least one mention\<close>
  "thread_reported u after_dt lim th =
     (\<not> th_locked th \<and> raised (th_history th lim after_dt) = None
      \<and> thread_hits u after_dt lim th \<noteq> [])"

definition u42 :: user where
  "u42 = \<lparr>user_id = 42\<rparr>"

definition m_hit :: message where
  "m_hit = \<lparr>msg_id = 1, mentions = [42], content = ''hello'', jump_url = ''j1''\<rparr>"

definition m_text :: message where
  "m_text = \<lparr>msg_id = 2, mentions = [], content = ''ping <@!42> now'', jump_url = ''j2''\<rparr>"

definition m_none :: message where
  "m_none = \<lparr>msg_id = 3, mentions = [7], content = ''<@4> and <@421>'', jump_url = ''j3''\<rparr>"





definition st0 :: scan_state where
  "st0 = \<lparr>total_hits = 0, lines = []\<rparr>"

definition th_shut :: thread where
  \<comment> \<open>a locked thread; reading its history would fail\<close>
  "th_shut =
     \<lparr>th_id = 10, th_locked = True,
      th_history = (\<lambda>l a. \<lparr>yielded = [m_hit], raised = Some OtherException\<rparr>)\<rparr>"

definition th_err :: thread where
  "th_err =
     \<lparr>th_id = 11, th_locked = False,
      th_history = (\<lambda>l a. \<lparr>yielded = [m_hit], raised = Some Forbidden\<rparr>)\<rparr>"

definition th_ok :: thread where
  "th_ok =
     \<lparr>th_id = 12, th_locked = False,
      th_history = (\<lambda>l a. \<lparr>yielded = [m_none, m_text], raised = None\<rparr>)\<rparr>"

definition th_quiet :: thread where
  "th_quiet =
     \<lparr>th_id = 13, th_locked = False,
      th_history = (\<lambda>l a. \<lparr>yielded = [m_none], raised = None\<rparr>)\<rparr>"

definition ch_with_threads :: text_channel where
  "ch_with_threads =
     \<lparr>ch_id = 5,
      ch_history = (\<lambda>l a. \<lparr>yielded = [m_hit], raised = None\<rparr>),
      ch_threads = [th_shut, th_err, th_ok, th_quiet]\<rparr>"

definition plain_decor :: decor where
  \<comment> \<open>decorations for the examples\<close>
  "plain_decor = \<lparr>bullet = ''*'', dash = ''-'', ellipsis = ''...'', arrow = ''>'', spool = ''~''\<rparr>"




definition dev :: category where
  "dev = \<lparr>cat_id = 123456789012345678, cat_name = ''Dev'', text_channels = []\<rparr>"

definition general :: category where
  "general = \<lparr>cat_id = 5, cat_name = ''General'', text_channels = []\<rparr>"

definition g_ex :: guild where
  "g_ex =
     \<lparr>get_channel = (\<lambda>n. if n = 123456789012345678 then Some (CategoryChannel dev)
                          else if n = 5 then Some (CategoryChannel general) else None),
      categories = [general, dev]\<rparr>"



definition open_state :: "scan_state \<Rightarrow> bool" where
  \<comment> \<open>under the cap, and no truncation note among the lines\<close>
  "open_state st = (length (lines st) < MAX_LINES \<and> truncation_note \<notin> set (lines st))"

definition capped_state :: "scan_state \<Rightarrow> bool" where
  \<comment> \<open>the lines are 40 or more report lines, none of them the truncation note, and then
      the truncation note, once\<close>
  "capped_state st =
     (lines st \<noteq> [] \<and> last (lines st) = truncation_note
      \<and> MAX_LINES \<le> length (butlast (lines st))
      \<and> truncation_note \<notin> set (butlast (lines st)))"

definition ch_busy :: text_channel where
  \<comment> \<open>a channel with a mention and 38 threads with a mention each\<close>
  "ch_busy =
     \<lparr>ch_id = 6,
      ch_history = (\<lambda>l a. \<lparr>yielded = [m_hit], raised = None\<rparr>),
      ch_threads = replicate 38 th_ok\<rparr>"

definition ch_boom :: text_channel where
  \<comment> \<open>a channel whose scan would raise an exception that is not caught\<close>
  "ch_boom =
     \<lparr>ch_id = 7,
      ch_history = (\<lambda>l a. \<lparr>yielded = [], raised = Some OtherException\<rparr>),
      ch_threads = []\<rparr>"

definition cat_busy :: category where
  "cat_busy = \<lparr>cat_id = 8, cat_name = ''Busy'', text_channels = [ch_busy]\<rparr>"

definition cat_boom :: category where
  "cat_boom = \<lparr>cat_id = 10, cat_name = ''Boom'', text_channels = [ch_boom]\<rparr>"

definition st_busy :: scan_state where
  "st_busy =
     \<lparr>total_hits = 39,
      lines = category_line cat_busy # channel_line plain_decor ch_busy [m_hit]
                # replicate 38 (thread_line plain_decor th_ok [m_text]) @ [truncation_note]\<rparr>"

definition pin_thread :: "int \<Rightarrow> int option \<Rightarrow> thread \<Rightarrow> thread" where
  \<comment> \<open>the thread that answers every request as \<open>th\<close> answers limit \<open>L\<close> and bound \<open>a\<close>\<close>
  "pin_thread L a th = th\<lparr>th_history := (\<lambda>l' a'. th_history th L a)\<rparr>"

definition pin_threads :: "int \<Rightarrow> int option \<Rightarrow> text_channel \<Rightarrow> text_channel" where
  "pin_threads L a ch = ch\<lparr>ch_threads := map (pin_thread L a) (ch_threads ch)\<rparr>"

definition map_channels :: "(text_channel \<Rightarrow> text_channel) \<Rightarrow> category \<Rightarrow> category" where
  \<comment> \<open>the category with each of its text channels replaced by its image\<close>
  "map_channels f cat = cat\<lparr>text_channels := map f (text_channels cat)\<rparr>"

definition th_boom :: thread where
  \<comment> \<open>an unlocked thread whose scan would raise an exception that is not caught\<close>
  "th_boom =
     \<lparr>th_id = 14, th_locked = False,
      th_history = (\<lambda>l a. \<lparr>yielded = [], raised = Some OtherException\<rparr>)\<rparr>"

definition ch_quiet :: text_channel where
  "ch_quiet =
     \<lparr>ch_id = 15,
      ch_history = (\<lambda>l a. \<lparr>yielded = [m_none], raised = None\<rparr>),
      ch_threads = [th_boom]\<rparr>"

definition cat_quiet :: category where
  "cat_quiet = \<lparr>cat_id = 16, cat_name = ''Quiet'', text_channels = [ch_quiet]\<rparr>"

definition th_limit :: thread where
  \<comment> \<open>a thread that can only be read with limit 100\<close>
  "th_limit =
     \<lparr>th_id = 17, th_locked = False,
      th_history = (\<lambda>l a. if l = 100 then \<lparr>yielded = [m_text], raised = None\<rparr>
                          else \<lparr>yielded = [], raised = Some OtherException\<rparr>)\<rparr>"

definition ch_limit :: text_channel where
  "ch_limit =
     \<lparr>ch_id = 18,
      ch_history = (\<lambda>l a. \<lparr>yielded = [m_hit], raised = None\<rparr>),
      ch_threads = [th_limit]\<rparr>"

definition cat_limit :: category where
  "cat_limit = \<lparr>cat_id = 19, cat_name = ''Limit'', text_channels = [ch_limit]\<rparr>"

section \<open>Properties of the text functions\<close>

lemma join_Cons:
  "zs \<noteq> [] \<Longrightarrow> join s (x # zs) = x @ s @ join s zs"
  by (cases zs) simp_all

lemma join_append:
  "xs \<noteq> [] \<Longrightarrow> ys \<noteq> [] \<Longrightarrow> join s (xs @ ys) = join s xs @ s @ join s ys"
proof (induction s xs rule: join.induct)
  case (1 sep)
  then show ?case by simp
next
  case (2 sep x)
  then show ?case by (cases ys) simp_all
next
  case (3 sep x y ys')
  then show ?case by simp
qed

lemma length_join_snoc:
  "length (join s (buf @ [line])) =
     (if buf = [] then length line else length (join s buf) + length s + length line)"
  by (simp add: join_append)

lemma join_flatten_mid:
  assumes "ys \<noteq> []"
  shows "join s (xs @ [join s ys] @ zs) = join s (xs @ ys @ zs)"
proof (cases "xs = []")
  case True
  then show ?thesis using assms by (cases "zs = []") (simp_all add: join_append join_Cons)
next
  case xs: False
  show ?thesis
  proof (cases "zs = []")
    case True
    then show ?thesis using assms xs by (simp add: join_append)
  next
    case False
    have "join s (xs @ ([join s ys] @ zs)) = join s xs @ s @ join s ([join s ys] @ zs)"
      using xs by (intro join_append) simp_all
    also have "join s ([join s ys] @ zs) = join s ys @ s @ join s zs"
      using False by (subst join_append) simp_all
    also have "join s xs @ s @ join s ys @ s @ join s zs = join s (xs @ (ys @ zs))"
      using xs assms False by (simp add: join_append)
    finally show ?thesis by simp
  qed
qed

lemma strip_id:
  assumes "s \<noteq> []" "\<not> isspace (hd s)" "\<not> isspace (last s)"
  shows "strip s = s"
proof -
  have a: "dropWhile isspace s = s"
    using assms(2) by (simp add: dropWhile_eq_self_iff)
  have "hd (rev s) = last s"
    using assms(1) by (simp add: hd_rev)
  then have "dropWhile isspace (rev s) = rev s"
    using assms(3) by (simp add: dropWhile_eq_self_iff)
  with a show ?thesis by (simp add: strip_def)
qed

lemma str_nat_digit: "n < 10 \<Longrightarrow> str_nat n = [digit_char n]"
  by (subst str_nat.simps) simp

lemma strip_long_line: "strip long_line = long_line"
proof (rule strip_id)
  show "long_line \<noteq> []" by (simp add: long_line_def)
  show "\<not> isspace (hd long_line)" by (simp add: long_line_def isspace_def)
  show "\<not> isspace (last long_line)" by (simp add: long_line_def isspace_def)
qed

section \<open>Report formatter: packing\<close>

text \<open>
  C1: every chunk produced by \<open>chunk_lines_into_fields\<close> has a value of at most 1024
  characters. The code does not keep this for a line that is itself longer than the limit:
  the single line of 1025 characters is packed into a chunk of 1025 characters, after an
  empty chunk.
\<close>

theorem chunk_lines_overlong_line:
  "chunk_lines_into_fields [long_line] ''Summary''
     = [(''Summary 1'', []), (''Summary 2'', long_line)]
   \<and> length long_line = 1025
   \<and> EMBED_FIELD_LIMIT < length (snd (chunk_lines_into_fields [long_line] ''Summary'' ! 1))"
proof -
  have len: "length long_line = 1025" by (simp add: long_line_def)
  have ne: "long_line \<noteq> []" using len by auto
  have "chunk_lines_into_fields [long_line] ''Summary''
     = [(''Summary 1'', []), (''Summary 2'', long_line)]"
    using ne
    by (simp add: chunk_lines_into_fields_def strip_long_line len EMBED_FIELD_LIMIT_def
        field_name_def str_nat_digit digit_char_def)
  then show ?thesis using len by (simp add: EMBED_FIELD_LIMIT_def)
qed

section \<open>History scanner: what the scans keep\<close>

lemma py_in_sublist: "py_in n h = sublist n h"
  by (induction h) (auto simp: sublist_Cons_right)

lemma channel_hits_loop_filter:
  "channel_hits_loop u msgs hits = hits @ filter (is_mention u) msgs"
  by (induction msgs arbitrary: hits) (auto simp: is_mention_def py_in_sublist)

lemma thread_hits_loop_filter:
  "thread_hits_loop u msgs hits = hits @ filter (is_mention u) msgs"
  by (induction msgs arbitrary: hits) (auto simp: is_mention_def py_in_sublist)



text \<open>
  C6: a message counts as a mention of the user exactly when the user is in the message's
  structured mention list, or the text contains \<open><@id>\<close>, or it contains \<open><@!id>\<close>; the
  per-channel and the per-thread scan keep exactly the messages of that one predicate.
\<close>

theorem scans_keep_mentions:
  "channel_hits_loop u msgs [] = filter (is_mention u) msgs
   \<and> thread_hits_loop u msgs [] = filter (is_mention u) msgs
   \<and> search_channel_for_mentions ch u after_dt lim =
       (case raised (ch_history ch lim after_dt) of
          None \<Rightarrow> Inr (filter (is_mention u) (yielded (ch_history ch lim after_dt)))
        | Some e \<Rightarrow> if isinstance_HTTPException e
                    then Inr (filter (is_mention u) (yielded (ch_history ch lim after_dt)))
                    else Inl e)"
  by (simp add: channel_hits_loop_filter thread_hits_loop_filter search_channel_for_mentions_def
      Let_def isinstance_HTTPException_def split: option.split)

lemma threads_loop_char:
  assumes "\<forall>th \<in> set ths. \<not> th_locked th \<longrightarrow>
             (case raised (th_history th lim after_dt) of None \<Rightarrow> True
              | Some e \<Rightarrow> isinstance_HTTPException e)"
  shows "threads_loop u after_dt lim ths results =
           Inr (results @ map (\<lambda>th. (th, thread_hits u after_dt lim th))
                             (filter (thread_reported u after_dt lim) ths))"
  using assms
proof (induction ths arbitrary: results)
  case Nil
  then show ?case by simp
next
  case (Cons th ths)
  then have ih: "\<And>r. threads_loop u after_dt lim ths r =
           Inr (r @ map (\<lambda>th. (th, thread_hits u after_dt lim th))
                             (filter (thread_reported u after_dt lim) ths))"
    by simp
  show ?case
  proof (cases "th_locked th")
    case True
    then have "\<not> thread_reported u after_dt lim th" by (simp add: thread_reported_def)
    with True show ?thesis by (simp add: ih)
  next
    case False
    with Cons.prems have ok: "case raised (th_history th lim after_dt) of None \<Rightarrow> True
              | Some e \<Rightarrow> isinstance_HTTPException e" by simp
    show ?thesis
    proof (cases "raised (th_history th lim after_dt)")
      case None
      have h: "thread_hits_loop u (yielded (th_history th lim after_dt)) []
                 = thread_hits u after_dt lim th"
        by (simp add: thread_hits_def thread_hits_loop_filter)
      have r: "thread_reported u after_dt lim th \<longleftrightarrow> thread_hits u after_dt lim th \<noteq> []"
        using None False by (simp add: thread_reported_def)
      show ?thesis using False None by (simp add: ih h r Let_def)
    next
      case (Some e)
      with ok have "isinstance_HTTPException e" by simp
      moreover have "\<not> thread_reported u after_dt lim th"
        using Some by (simp add: thread_reported_def)
      ultimately show ?thesis using False Some by (simp add: ih Let_def)
    qed
  qed
qed

text \<open>
  C7: the per-thread scan skips locked threads entirely, returns only the threads with at
  least one mention, and a permission or transport error while a thread is scanned drops that
  thread alone: the threads after it are still scanned. The result is the list of the
  unlocked threads that were read to the end and hold a mention, each with its mentions.
\<close>

theorem thread_scan_result:
  assumes "\<forall>th \<in> set (ch_threads ch). \<not> th_locked th \<longrightarrow>
             (case raised (th_history th lim after_dt) of None \<Rightarrow> True
              | Some e \<Rightarrow> isinstance_HTTPException e)"
  shows "search_active_threads_for_mentions ch u after_dt lim =
           Inr (map (\<lambda>th. (th, thread_hits u after_dt lim th))
                    (filter (thread_reported u after_dt lim) (ch_threads ch)))"
  using threads_loop_char[OF assms, of u "[]"]
  by (simp add: search_active_threads_for_mentions_def)

theorem thread_scan_result_witness:
  "search_active_threads_for_mentions ch_with_threads u42 None 100 = Inr [(th_ok, [m_text])]"
proof -
  have hyp: "\<forall>th \<in> set (ch_threads ch_with_threads). \<not> th_locked th \<longrightarrow>
       (case raised (th_history th 100 None) of None \<Rightarrow> True
        | Some e \<Rightarrow> isinstance_HTTPException e)"
    by (simp add: ch_with_threads_def th_shut_def th_err_def th_ok_def th_quiet_def
        isinstance_HTTPException_def)
  have f1: "is_mention u42 m_hit" by code_simp
  have f2: "is_mention u42 m_text" by code_simp
  have f3: "\<not> is_mention u42 m_none" by code_simp
  have r: "\<not> thread_reported u42 None 100 th_shut" "\<not> thread_reported u42 None 100 th_err"
    "thread_reported u42 None 100 th_ok" "\<not> thread_reported u42 None 100 th_quiet"
    "thread_hits u42 None 100 th_ok = [m_text]"
    by (simp_all add: thread_reported_def thread_hits_def th_shut_def th_err_def th_ok_def
        th_quiet_def f1 f2 f3)
  have ths: "ch_threads ch_with_threads = [th_shut, th_err, th_ok, th_quiet]"
    by (simp add: ch_with_threads_def)
  show ?thesis
    using thread_scan_result[OF hyp, of u42] by (simp add: ths r)
qed

section \<open>Channel scan: caught errors\<close>






section \<open>Agent gateway: normalisation\<close>




section \<open>Report formatter: what the packing keeps\<close>

lemma chunk_long_line:
  "chunk_lines_into_fields [long_line] pfx
     = [(field_name pfx 0, []), (field_name pfx 1, long_line)]"
proof -
  have len: "length long_line = 1025" by (simp add: long_line_def)
  have ne: "long_line \<noteq> []" using len by auto
  show ?thesis using ne
    by (simp add: chunk_lines_into_fields_def strip_long_line len EMBED_FIELD_LIMIT_def)
qed

text \<open>
  C4: joined by newlines, the chunk values reproduce the non-blank trimmed lines in order;
  chunk number \<open>i\<close>, from 1, is named \<open>"{prefix} {i}"\<close>; the last partial chunk is flushed. The
  code does not keep the first part when the first line that is not blank is longer than the
  limit: an empty chunk is emitted before it, and the joined values start with a newline
  that the lines do not have.
\<close>

theorem chunk_values_not_the_lines:
  "nonblank [long_line] = [long_line]
   \<and> join ''\<newline>'' (nonblank [long_line]) = long_line
   \<and> map snd (chunk_lines_into_fields [long_line] ''Summary'') = [[], long_line]
   \<and> join ''\<newline>'' (map snd (chunk_lines_into_fields [long_line] ''Summary''))
       = ''\<newline>'' @ long_line"
proof -
  have ne: "long_line \<noteq> []" by (simp add: long_line_def)
  then show ?thesis
    by (simp add: chunk_long_line nonblank_def strip_long_line)
qed

text \<open>
  The names are the prefix and the running number for every input, and the rest of C4 and
  the bound of C1 hold as soon as no line is longer than the limit.
\<close>

lemma chunk_loop_names:
  "map fst (chunk_loop pfx ls fs buf bl) =
     map fst fs
       @ map (field_name pfx) [length fs ..< length (chunk_loop pfx ls fs buf bl)]
   \<and> length fs \<le> length (chunk_loop pfx ls fs buf bl)"
proof (induction ls arbitrary: fs buf bl)
  case Nil
  then show ?case by (simp add: upt_rec)
next
  case (Cons l ls)
  show ?case
  proof (cases "strip l = []")
    case True
    then show ?thesis using Cons.IH[of fs buf bl] by simp
  next
    case nb: False
    let ?add = "length (strip l) + (if buf \<noteq> [] then 1 else 0)"
    show ?thesis
    proof (cases "bl + ?add > EMBED_FIELD_LIMIT")
      case True
      let ?f = "fs @ [(field_name pfx (length fs), join ''\<newline>'' buf)]"
      let ?r = "chunk_loop pfx ls ?f [strip l] (length (strip l))"
      have eq: "chunk_loop pfx (l # ls) fs buf bl = ?r"
        using nb True by (simp add: Let_def)
      from Cons.IH[of ?f "[strip l]" "length (strip l)"]
      have ih: "map fst ?r = map fst ?f @ map (field_name pfx) [length ?f ..< length ?r]"
        and le: "length ?f \<le> length ?r" by simp_all
      from le have "[length fs ..< length ?r] = length fs # [length ?f ..< length ?r]"
        by (simp add: upt_rec)
      with ih le show ?thesis unfolding eq by simp
    next
      case False
      then have eq: "chunk_loop pfx (l # ls) fs buf bl
                       = chunk_loop pfx ls fs (buf @ [strip l]) (bl + ?add)"
        using nb by (simp add: Let_def)
      show ?thesis unfolding eq using Cons.IH[of fs "buf @ [strip l]" "bl + ?add"] by simp
    qed
  qed
qed

lemma chunk_names:
  "map fst (chunk_lines_into_fields ls pfx)
     = map (\<lambda>i. pfx @ '' '' @ str_nat (i + 1)) [0 ..< length (chunk_lines_into_fields ls pfx)]"
proof -
  have "field_name pfx = (\<lambda>i. pfx @ '' '' @ str_nat (i + 1))"
    by (rule ext) (simp add: field_name_def)
  then show ?thesis
    using chunk_loop_names[of pfx ls "[]" "[]" 0] by (simp add: chunk_lines_into_fields_def)
qed

lemma chunk_loop_join:
  assumes "bl = length (join ''\<newline>'' buf)"
    and "buf \<noteq> [] \<or> (case nonblank ls of [] \<Rightarrow> True | x # _ \<Rightarrow> length x \<le> EMBED_FIELD_LIMIT)"
  shows "join ''\<newline>'' (map snd (chunk_loop pfx ls fs buf bl)) =
         join ''\<newline>'' (map snd fs @ buf @ nonblank ls)"
  using assms
proof (induction ls arbitrary: fs buf bl)
  case Nil
  then show ?case
    using join_flatten_mid[of buf "''\<newline>''" "map snd fs" "[]"]
    by (simp add: nonblank_def)
next
  case (Cons l ls)
  show ?case
  proof (cases "strip l = []")
    case True
    then have "nonblank (l # ls) = nonblank ls" by (simp add: nonblank_def)
    then show ?thesis using Cons.IH[of bl buf fs] Cons.prems True by simp
  next
    case nb: False
    then have nbl: "nonblank (l # ls) = strip l # nonblank ls" by (simp add: nonblank_def)
    let ?add = "length (strip l) + (if buf \<noteq> [] then 1 else 0)"
    show ?thesis
    proof (cases "bl + ?add > EMBED_FIELD_LIMIT")
      case True
      have bufne: "buf \<noteq> []"
      proof
        assume "buf = []"
        with Cons.prems nbl True show False by simp
      qed
      let ?f = "fs @ [(field_name pfx (length fs), join ''\<newline>'' buf)]"
      have eq: "chunk_loop pfx (l # ls) fs buf bl
                  = chunk_loop pfx ls ?f [strip l] (length (strip l))"
        using nb True by (simp add: Let_def)
      have "join ''\<newline>'' (map snd (chunk_loop pfx ls ?f [strip l] (length (strip l)))) =
            join ''\<newline>'' (map snd ?f @ [strip l] @ nonblank ls)"
        by (rule Cons.IH) simp_all
      also have "\<dots> = join ''\<newline>''
                        (map snd fs @ [join ''\<newline>'' buf] @ (strip l # nonblank ls))"
        by simp
      also have "\<dots> = join ''\<newline>'' (map snd fs @ buf @ (strip l # nonblank ls))"
        using bufne by (rule join_flatten_mid)
      finally show ?thesis unfolding eq nbl .
    next
      case False
      then have eq: "chunk_loop pfx (l # ls) fs buf bl
                       = chunk_loop pfx ls fs (buf @ [strip l]) (bl + ?add)"
        using nb by (simp add: Let_def)
      have "join ''\<newline>'' (map snd (chunk_loop pfx ls fs (buf @ [strip l]) (bl + ?add))) =
            join ''\<newline>'' (map snd fs @ (buf @ [strip l]) @ nonblank ls)"
        by (rule Cons.IH) (use Cons.prems in \<open>simp_all add: length_join_snoc\<close>)
      then show ?thesis unfolding eq nbl by simp
    qed
  qed
qed

lemma chunk_values_join:
  assumes "case nonblank ls of [] \<Rightarrow> True | x # _ \<Rightarrow> length x \<le> EMBED_FIELD_LIMIT"
  shows "join ''\<newline>'' (map snd (chunk_lines_into_fields ls pfx)) = join ''\<newline>'' (nonblank ls)"
  using chunk_loop_join[of 0 "[]" ls pfx "[]"] assms
  by (simp add: chunk_lines_into_fields_def)

lemma chunk_loop_bound:
  assumes "bl = length (join ''\<newline>'' buf)"
    and "bl \<le> EMBED_FIELD_LIMIT \<or> (\<exists>x. buf = [x] \<and> x \<in> S)"
    and "\<forall>v \<in> snd ` set fs. length v \<le> EMBED_FIELD_LIMIT \<or> v \<in> S"
    and "strip ` set ls \<subseteq> S"
  shows "\<forall>v \<in> snd ` set (chunk_loop pfx ls fs buf bl). length v \<le> EMBED_FIELD_LIMIT \<or> v \<in> S"
  using assms
proof (induction ls arbitrary: fs buf bl)
  case Nil
  then show ?case by auto
next
  case (Cons l ls)
  show ?case
  proof (cases "strip l = []")
    case True
    then show ?thesis using Cons.IH[of bl buf fs] Cons.prems by simp
  next
    case nb: False
    let ?add = "length (strip l) + (if buf \<noteq> [] then 1 else 0)"
    show ?thesis
    proof (cases "bl + ?add > EMBED_FIELD_LIMIT")
      case True
      let ?f = "fs @ [(field_name pfx (length fs), join ''\<newline>'' buf)]"
      have eq: "chunk_loop pfx (l # ls) fs buf bl
                  = chunk_loop pfx ls ?f [strip l] (length (strip l))"
        using nb True by (simp add: Let_def)
      have "\<forall>v \<in> snd ` set (chunk_loop pfx ls ?f [strip l] (length (strip l))).
              length v \<le> EMBED_FIELD_LIMIT \<or> v \<in> S"
      proof (rule Cons.IH)
        show "length (strip l) = length (join ''\<newline>'' [strip l])" by simp
        show "length (strip l) \<le> EMBED_FIELD_LIMIT \<or> (\<exists>x. [strip l] = [x] \<and> x \<in> S)"
          using Cons.prems(4) by simp
        show "\<forall>v \<in> snd ` set ?f. length v \<le> EMBED_FIELD_LIMIT \<or> v \<in> S"
          using Cons.prems(1,2,3) by auto
        show "strip ` set ls \<subseteq> S" using Cons.prems(4) by simp
      qed
      then show ?thesis unfolding eq .
    next
      case False
      then have eq: "chunk_loop pfx (l # ls) fs buf bl
                       = chunk_loop pfx ls fs (buf @ [strip l]) (bl + ?add)"
        using nb by (simp add: Let_def)
      have "\<forall>v \<in> snd ` set (chunk_loop pfx ls fs (buf @ [strip l]) (bl + ?add)).
              length v \<le> EMBED_FIELD_LIMIT \<or> v \<in> S"
      proof (rule Cons.IH)
        show "bl + ?add = length (join ''\<newline>'' (buf @ [strip l]))"
          using Cons.prems(1) by (simp add: length_join_snoc)
        show "bl + ?add \<le> EMBED_FIELD_LIMIT \<or> (\<exists>x. buf @ [strip l] = [x] \<and> x \<in> S)"
          using False by simp
        show "\<forall>v \<in> snd ` set fs. length v \<le> EMBED_FIELD_LIMIT \<or> v \<in> S"
          using Cons.prems(3) .
        show "strip ` set ls \<subseteq> S" using Cons.prems(4) by simp
      qed
      then show ?thesis unfolding eq .
    qed
  qed
qed

lemma chunk_values_bound:
  assumes "\<forall>l \<in> set ls. length (strip l) \<le> EMBED_FIELD_LIMIT"
  shows "\<forall>v \<in> snd ` set (chunk_lines_into_fields ls pfx). length v \<le> EMBED_FIELD_LIMIT"
proof -
  have "\<forall>v \<in> snd ` set (chunk_loop pfx ls [] [] 0).
          length v \<le> EMBED_FIELD_LIMIT \<or> v \<in> strip ` set ls"
    by (rule chunk_loop_bound) simp_all
  with assms show ?thesis
    by (auto simp: chunk_lines_into_fields_def)
qed

section \<open>Category resolver: tokens that are digits but no numbers\<close>

lemma isspace_superscript_two: "\<not> isspace (CHR 0xB2)"
  by (simp add: isspace_def)

lemma parts_of_superscript_two: "parts_of [CHR 0xB2] = [[CHR 0xB2]]"
  by (simp add: parts_of_def strip_def isspace_superscript_two)

text \<open>
  C5: the resolver splits the spec on commas, trims, drops empty tokens, resolves the numeric
  tokens against category identifiers and then the other tokens against category names, and
  returns the matches without duplicates in first-seen order, for every guild and every spec
  string. The code does not do so for the spec made of the one character superscript two
  (code point 178): \<open>isdigit\<close> accepts it, \<open>int\<close> does not, and the resolver raises
  \<open>ValueError\<close> in every guild, where a token that is no decimal number was to be matched
  against the category names.
\<close>

theorem parse_superscript_digit:
  "isdigit [CHR 0xB2]
   \<and> py_int [CHR 0xB2] = Inl ValueError
   \<and> parse_category_spec g [CHR 0xB2] = Inl ValueError"
  by (simp add: parse_category_spec_def parts_of_superscript_two isdigit_def isdigit_char_def
      py_int_def isdecimal_char_def)

text \<open>
  Whenever \<open>int\<close> accepts every token that \<open>isdigit\<close> accepts, the code computes what the
  specification describes, \<^const>\<open>resolve_spec\<close>.
\<close>

lemma dedup_append:
  "dedup_by_id seen (xs @ ys)
     = dedup_by_id seen xs @ dedup_by_id (seen \<union> cat_id ` set xs) ys"
proof (induction xs arbitrary: seen)
  case Nil
  then show ?case by simp
next
  case (Cons c xs)
  show ?case
  proof (cases "cat_id c \<in> seen")
    case True
    then have "seen \<union> cat_id ` set (c # xs) = seen \<union> cat_id ` set xs" by auto
    with True Cons.IH[of seen] show ?thesis by simp
  next
    case False
    have "insert (cat_id c) seen \<union> cat_id ` set xs = seen \<union> cat_id ` set (c # xs)" by auto
    with False Cons.IH[of "insert (cat_id c) seen"] show ?thesis by simp
  qed
qed

lemma dedup_distinct:
  "distinct (map cat_id (dedup_by_id seen xs))
   \<and> cat_id ` set (dedup_by_id seen xs) = cat_id ` set xs - seen"
  by (induction xs arbitrary: seen) auto

lemma names_inner_char:
  "names_inner p cats seen out =
     (seen \<union> cat_id ` set (filter (\<lambda>cat. lower (cat_name cat) = lower p) cats),
      out @ dedup_by_id seen (filter (\<lambda>cat. lower (cat_name cat) = lower p) cats))"
proof (induction cats arbitrary: seen out)
  case Nil
  then show ?case by simp
next
  case (Cons c cats)
  let ?F = "filter (\<lambda>cat. lower (cat_name cat) = lower p) cats"
  show ?case
  proof (cases "lower (cat_name c) = lower p")
    case m: True
    show ?thesis
    proof (cases "cat_id c \<in> seen")
      case True
      then have "seen \<union> cat_id ` set (c # ?F) = seen \<union> cat_id ` set ?F" by auto
      with m True Cons.IH[of seen out] show ?thesis by simp
    next
      case False
      have "insert (cat_id c) seen \<union> cat_id ` set ?F = seen \<union> cat_id ` set (c # ?F)"
        by auto
      with m False Cons.IH[of "insert (cat_id c) seen" "out @ [c]"] show ?thesis by simp
    qed
  next
    case False
    with Cons.IH[of seen out] show ?thesis by simp
  qed
qed

lemma names_pass_char:
  "names_pass g ps seen out =
     (seen \<union> cat_id ` set (concat (map (name_matches g) (filter (\<lambda>p. \<not> isdigit p) ps))),
      out @ dedup_by_id seen (concat (map (name_matches g) (filter (\<lambda>p. \<not> isdigit p) ps))))"
proof (induction ps arbitrary: seen out)
  case Nil
  then show ?case by simp
next
  case (Cons p ps)
  show ?case
  proof (cases "isdigit p")
    case True
    with Cons.IH[of seen out] show ?thesis by simp
  next
    case False
    have ni: "names_inner p (categories g) seen out =
        (seen \<union> cat_id ` set (name_matches g p), out @ dedup_by_id seen (name_matches g p))"
      by (simp add: names_inner_char name_matches_def)
    show ?thesis using False
      by (simp add: ni Cons.IH dedup_append Un_assoc image_Un)
  qed
qed

lemma ids_pass_char:
  assumes "\<forall>p \<in> set ps. isdigit p \<longrightarrow> (\<exists>n. py_int p = Inr n)"
  shows "ids_pass g ps seen out =
     Inr (seen \<union> cat_id ` set (concat (map (id_matches g) (filter isdigit ps))),
          out @ dedup_by_id seen (concat (map (id_matches g) (filter isdigit ps))))"
  using assms
proof (induction ps arbitrary: seen out)
  case Nil
  then show ?case by simp
next
  case (Cons p ps)
  let ?I = "concat (map (id_matches g) (filter isdigit ps))"
  from Cons have ih: "\<And>seen out. ids_pass g ps seen out =
     Inr (seen \<union> cat_id ` set ?I, out @ dedup_by_id seen ?I)"
    by simp
  show ?case
  proof (cases "isdigit p")
    case False
    then show ?thesis by (simp add: ih)
  next
    case True
    with Cons.prems obtain n where n: "py_int p = Inr n" by auto
    show ?thesis
    proof (cases "\<exists>ch. get_channel g n = Some (CategoryChannel ch)")
      case False
      then have im: "id_matches g p = []"
        by (auto simp: id_matches_def n split: option.splits guild_channel.splits)
      from False have "ids_pass g (p # ps) seen out = ids_pass g ps seen out"
        using True n by (auto split: option.splits guild_channel.splits)
      then show ?thesis using True by (simp add: ih im)
    next
      case ex: True
      then obtain ch where ch: "get_channel g n = Some (CategoryChannel ch)" by auto
      then have im: "id_matches g p = [ch]" by (simp add: id_matches_def n)
      show ?thesis
      proof (cases "cat_id ch \<in> seen")
        case s: True
        then have "seen \<union> cat_id ` set (ch # ?I) = seen \<union> cat_id ` set ?I" by auto
        then show ?thesis using True n ch s by (simp add: ih im)
      next
        case s: False
        have "insert (cat_id ch) seen \<union> cat_id ` set ?I = seen \<union> cat_id ` set (ch # ?I)"
          by auto
        then show ?thesis using True n ch s by (simp add: ih im)
      qed
    qed
  qed
qed

lemma parts_of_Nil: "parts_of [] = []"
  by (simp add: parts_of_def strip_def)

lemma parse_category_spec_refines:
  assumes "\<forall>p \<in> set (parts_of spec). isdigit p \<longrightarrow> (\<exists>n. py_int p = Inr n)"
  shows "parse_category_spec g spec = Inr (resolve_spec g spec)"
proof (cases "spec = []")
  case True
  then show ?thesis by (simp add: parse_category_spec_def resolve_spec_def parts_of_Nil)
next
  case False
  then show ?thesis
    by (simp add: parse_category_spec_def resolve_spec_def ids_pass_char[OF assms]
        names_pass_char dedup_append Let_def)
qed

lemma parse_empty_spec: "parse_category_spec g [] = Inr []"
  by (simp add: parse_category_spec_def)

text \<open>The example of the specification: an identifier and a name, resolved in that order.\<close>

lemma parts_of_example:
  "parts_of ''123456789012345678, General'' = [''123456789012345678'', ''General'']"
  by (simp add: parts_of_def strip_def isspace_def)

lemma py_int_example: "py_int ''123456789012345678'' = Inr 123456789012345678"
  by (simp add: py_int_def isdecimal_char_def)

lemma spec_example:
  "parse_category_spec g_ex ''123456789012345678, General'' = Inr [dev, general]"
  by (simp add: parse_category_spec_def parts_of_example isdigit_def isdigit_char_def
      py_int_example g_ex_def lower_def lower_char_def dev_def general_def)

section \<open>The reply: overflow into an attachment\<close>















section \<open>The cap on the report lines\<close>

lemma category_line_not_note: "category_line cat \<noteq> truncation_note"
  by (simp add: category_line_def truncation_note_def)

lemma thread_line_not_note: "thread_line d th msgs \<noteq> truncation_note"
  by (simp add: thread_line_def truncation_note_def)

lemma channel_line_not_note: "channel_line d ch hits \<noteq> truncation_note"
proof
  assume "channel_line d ch hits = truncation_note"
  then have "set (channel_line d ch hits) = set truncation_note" by simp
  moreover have "CHR ''#'' \<in> set (channel_line d ch hits)"
    by (simp add: channel_line_def)
  moreover have "CHR ''#'' \<notin> set truncation_note"
    by (simp add: truncation_note_def)
  ultimately show False by simp
qed

lemma add_thread_hits_lines:
  "lines (add_thread_hits d r st) = lines st @ map (\<lambda>(th, m). thread_line d th m) r"
  by (induction r arbitrary: st) auto

lemma set_thread_lines: "truncation_note \<notin> set (map (\<lambda>(th, m). thread_line d th m) r)"
  by (induction r) (auto simp: thread_line_not_note[symmetric])

lemma image_thread_lines: "truncation_note \<notin> (\<lambda>(th, m). thread_line d th m) ` set r"
  using set_thread_lines[of d r] by simp

lemma channel_body_flow:
  assumes "channel_body d u a lim inc cat ch hdr st = Inr (fl, hdr', st')" and "open_state st"
  shows "(fl = Continue \<and> open_state st') \<or> (fl = Break \<and> capped_state st')"
proof -
  from assms(1) obtain hits where s: "search_channel_for_mentions ch u a lim = Inr hits"
    by (cases "search_channel_for_mentions ch u a lim") (auto simp: channel_body_def)
  show ?thesis
  proof (cases "hits = []")
    case True
    with assms s show ?thesis by (simp add: channel_body_def)
  next
    case False
    show ?thesis
    proof (cases inc)
      case ni: False
      show ?thesis
        using assms s False ni unfolding channel_body_def Let_def open_state_def capped_state_def
        by (auto split: if_splits simp: butlast_append category_line_not_note[symmetric]
            channel_line_not_note[symmetric])
    next
      case inc: True
      from assms(1) s False inc obtain r where
        r: "search_active_threads_for_mentions ch u a (min lim 100) = Inr r"
        by (cases "search_active_threads_for_mentions ch u a (min lim 100)")
           (auto simp: channel_body_def Let_def)
      show ?thesis
        using assms s False inc r image_thread_lines[of d r]
        unfolding channel_body_def Let_def open_state_def capped_state_def
        by (auto split: if_splits simp: butlast_append add_thread_hits_lines
            category_line_not_note[symmetric] channel_line_not_note[symmetric])
    qed
  qed
qed

lemma capped_not_open: "capped_state st \<Longrightarrow> MAX_LINES \<le> length (lines st)"
  by (auto simp: capped_state_def)

lemma open_small: "open_state st \<Longrightarrow> \<not> MAX_LINES \<le> length (lines st)"
  by (auto simp: open_state_def)

lemma channels_loop_open_or_capped:
  assumes "channels_loop d u a lim inc cat chs hdr st = Inr st'" and "open_state st"
  shows "open_state st' \<or> capped_state st'"
  using assms
proof (induction chs arbitrary: hdr st)
  case Nil
  then show ?case by simp
next
  case (Cons ch chs)
  from Cons.prems(1) obtain fl hdr' st1 where
    b: "channel_body d u a lim inc cat ch hdr st = Inr (fl, hdr', st1)"
    by (cases "channel_body d u a lim inc cat ch hdr st") auto
  from channel_body_flow[OF b Cons.prems(2)] show ?case
  proof
    assume c: "fl = Continue \<and> open_state st1"
    with Cons.prems(1) b have "channels_loop d u a lim inc cat chs hdr' st1 = Inr st'" by simp
    with c show ?thesis using Cons.IH by blast
  next
    assume c: "fl = Break \<and> capped_state st1"
    with Cons.prems(1) b have "st' = st1" by simp
    with c show ?thesis by simp
  qed
qed

lemma channels_loop_cut:
  assumes "channels_loop d u a lim inc cat chs1 hdr st = Inr st'"
    and "MAX_LINES \<le> length (lines st')" and "open_state st"
  shows "channels_loop d u a lim inc cat (chs1 @ chs2) hdr st = Inr st'"
  using assms
proof (induction chs1 arbitrary: hdr st)
  case Nil
  then show ?case by (auto dest: open_small)
next
  case (Cons ch chs)
  from Cons.prems(1) obtain fl hdr' st1 where
    b: "channel_body d u a lim inc cat ch hdr st = Inr (fl, hdr', st1)"
    by (cases "channel_body d u a lim inc cat ch hdr st") auto
  from channel_body_flow[OF b Cons.prems(3)] show ?case
  proof
    assume c: "fl = Continue \<and> open_state st1"
    with Cons.prems(1) b have "channels_loop d u a lim inc cat chs hdr' st1 = Inr st'" by simp
    then have "channels_loop d u a lim inc cat (chs @ chs2) hdr' st1 = Inr st'"
      using Cons.prems(2) c by (intro Cons.IH) simp_all
    with b c show ?thesis by simp
  next
    assume c: "fl = Break \<and> capped_state st1"
    with Cons.prems(1) b show ?thesis by simp
  qed
qed


lemma channel_body_cat:
  assumes "cat_id cat' = cat_id cat" and "cat_name cat' = cat_name cat"
  shows "channel_body d u a lim inc cat' ch hdr st = channel_body d u a lim inc cat ch hdr st"
proof -
  have cl: "category_line cat' = category_line cat"
    using assms by (simp add: category_line_def)
  show ?thesis unfolding channel_body_def cl by (rule refl)
qed

lemma channels_loop_cat:
  assumes "cat_id cat' = cat_id cat" and "cat_name cat' = cat_name cat"
  shows "channels_loop d u a lim inc cat' chs hdr st = channels_loop d u a lim inc cat chs hdr st"
  by (induction chs arbitrary: hdr st)
     (simp_all add: channel_body_cat[OF assms] split: sum.splits prod.splits flow.splits)

lemma open_st0: "open_state st0"
  by (simp add: open_state_def st0_def MAX_LINES_def)

lemma categories_loop_open_or_capped:
  assumes "categories_loop d u a lim inc cats st = Inr st'" and "open_state st"
  shows "open_state st' \<or> capped_state st'"
  using assms
proof (induction cats arbitrary: st)
  case Nil
  then show ?case by simp
next
  case (Cons cat cats)
  from Cons.prems(1) obtain s1 where
    c: "channels_loop d u a lim inc cat (text_channels cat) False st = Inr s1"
    by (cases "channels_loop d u a lim inc cat (text_channels cat) False st") auto
  from channels_loop_open_or_capped[OF c Cons.prems(2)]
  have oc: "open_state s1 \<or> capped_state s1" .
  show ?case
  proof (cases "MAX_LINES \<le> length (lines s1)")
    case True
    with Cons.prems(1) c have "st' = s1" by simp
    with oc show ?thesis by simp
  next
    case False
    with oc have o: "open_state s1" by (auto dest: capped_not_open)
    from False Cons.prems(1) c have "categories_loop d u a lim inc cats s1 = Inr st'" by simp
    then show ?thesis using o by (rule Cons.IH)
  qed
qed

lemma categories_loop_append:
  assumes "open_state st"
  shows "categories_loop d u a lim inc (xs @ ys) st =
           (case categories_loop d u a lim inc xs st of
              Inl e \<Rightarrow> Inl e
            | Inr st' \<Rightarrow> if MAX_LINES \<le> length (lines st') then Inr st'
                         else categories_loop d u a lim inc ys st')"
  using assms
proof (induction xs arbitrary: st)
  case Nil
  then show ?case by (auto dest: open_small)
next
  case (Cons cat xs)
  show ?case
  proof (cases "channels_loop d u a lim inc cat (text_channels cat) False st")
    case (Inl e)
    then show ?thesis by simp
  next
    case (Inr s1)
    from channels_loop_open_or_capped[OF Inr Cons.prems]
    have oc: "open_state s1 \<or> capped_state s1" .
    show ?thesis
    proof (cases "MAX_LINES \<le> length (lines s1)")
      case True
      with Inr show ?thesis by simp
    next
      case False
      with oc have o: "open_state s1" by (auto dest: capped_not_open)
      from False Inr show ?thesis by (simp add: Cons.IH[OF o])
    qed
  qed
qed

text \<open>
  C10: once the line list has 40 entries or more after a channel, one truncation note is
  appended and no further channel or category is scanned: whatever follows that channel, in
  its category and in the categories after it, the lines handed to the formatter are those
  gathered up to that channel and then the note, which occurs nowhere else among them.
\<close>

theorem scan_stops_at_cap:
  assumes "categories_loop d u a lim inc (cats1 @ [cat\<lparr>text_channels := chs1\<rparr>]) st0 = Inr st"
    and "MAX_LINES \<le> length (lines st)"
  shows "categories_loop d u a lim inc
           (cats1 @ cat\<lparr>text_channels := chs1 @ chs2\<rparr> # cats2) st0 = Inr st
         \<and> capped_state st"
proof -
  let ?A = "cat\<lparr>text_channels := chs1\<rparr>"
  let ?B = "cat\<lparr>text_channels := chs1 @ chs2\<rparr>"
  from categories_loop_open_or_capped[OF assms(1) open_st0] assms(2)
  have cap: "capped_state st" by (auto dest: open_small)
  from assms(1) obtain s1 where
    p: "categories_loop d u a lim inc cats1 st0 = Inr s1"
    by (cases "categories_loop d u a lim inc cats1 st0")
       (auto simp: categories_loop_append[OF open_st0])
  from categories_loop_open_or_capped[OF p open_st0]
  have oc: "open_state s1 \<or> capped_state s1" .
  have "categories_loop d u a lim inc (cats1 @ ?B # cats2) st0 = Inr st"
  proof (cases "MAX_LINES \<le> length (lines s1)")
    case True
    with assms(1) p have "st = s1" by (simp add: categories_loop_append[OF open_st0])
    with True p show ?thesis by (simp add: categories_loop_append[OF open_st0])
  next
    case False
    with oc have o: "open_state s1" by (auto dest: capped_not_open)
    from False assms(1) p have "categories_loop d u a lim inc [?A] s1 = Inr st"
      by (simp add: categories_loop_append[OF open_st0])
    then have "channels_loop d u a lim inc ?A chs1 False s1 = Inr st"
      by (cases "channels_loop d u a lim inc ?A chs1 False s1") (auto split: if_splits)
    then have "channels_loop d u a lim inc ?A (chs1 @ chs2) False s1 = Inr st"
      using assms(2) o by (rule channels_loop_cut)
    moreover have "channels_loop d u a lim inc ?B (chs1 @ chs2) False s1
                     = channels_loop d u a lim inc ?A (chs1 @ chs2) False s1"
      by (rule channels_loop_cat) simp_all
    ultimately have "channels_loop d u a lim inc ?B (text_channels ?B) False s1 = Inr st"
      by simp
    then have "categories_loop d u a lim inc (?B # cats2) s1 = Inr st"
      using assms(2) by simp
    with False p show ?thesis by (simp add: categories_loop_append[OF open_st0])
  qed
  with cap show ?thesis by simp
qed

lemma busy_run:
  "categories_loop plain_decor u42 None 200 True ([] @ [cat_busy\<lparr>text_channels := [ch_busy]\<rparr>]) st0
     = Inr st_busy"
  by code_simp

lemma boom_run:
  "categories_loop plain_decor u42 None 200 True [cat_boom] st0 = Inl OtherException"
  by code_simp

lemma busy_len: "MAX_LINES \<le> length (lines st_busy)"
  by (simp add: st_busy_def MAX_LINES_def)

theorem scan_stops_at_cap_witness:
  "categories_loop plain_decor u42 None 200 True
       ([] @ cat_busy\<lparr>text_channels := [ch_busy] @ [ch_boom]\<rparr> # [cat_boom]) st0 = Inr st_busy
   \<and> capped_state st_busy
   \<and> length (lines st_busy) = 41
   \<and> categories_loop plain_decor u42 None 200 True [cat_boom] st0 = Inl OtherException"
  using scan_stops_at_cap[OF busy_run busy_len, of "[ch_boom]" "[cat_boom]"] boom_run
  by (simp add: st_busy_def del: categories_loop.simps)

section \<open>Threads in find-collabs\<close>

lemma search_channel_threads_update:
  "search_channel_for_mentions (ch\<lparr>ch_threads := ths\<rparr>) u a lim = search_channel_for_mentions ch u a lim"
  by (simp add: search_channel_for_mentions_def)

lemma channel_line_threads_update:
  "channel_line d (ch\<lparr>ch_threads := ths\<rparr>) hits = channel_line d ch hits"
  by (simp add: channel_line_def)

lemma channel_body_threads_unused:
  assumes "\<not> (inc \<and> (\<exists>h. search_channel_for_mentions ch u a lim = Inr h \<and> h \<noteq> []))"
  shows "channel_body d u a lim inc cat (ch\<lparr>ch_threads := ths\<rparr>) hdr st
           = channel_body d u a lim inc cat ch hdr st"
proof (cases "search_channel_for_mentions ch u a lim")
  case (Inl e)
  then show ?thesis
    by (simp add: channel_body_def search_channel_threads_update)
next
  case (Inr hits)
  show ?thesis
  proof (cases "hits = []")
    case True
    with Inr show ?thesis by (simp add: channel_body_def search_channel_threads_update)
  next
    case False
    with assms Inr have "\<not> inc" by simp
    with Inr show ?thesis
      by (simp add: channel_body_def search_channel_threads_update channel_line_threads_update)
  qed
qed

lemma threads_loop_pin:
  "threads_loop u a L (map (pin_thread L a) ths) (map (apfst (pin_thread L a)) r)
     = map_sum (\<lambda>e. e) (map (apfst (pin_thread L a))) (threads_loop u a L ths r)"
proof (induction ths arbitrary: r)
  case Nil
  then show ?case by simp
next
  case (Cons th ths)
  have l: "th_locked (pin_thread L a th) = th_locked th" by (simp add: pin_thread_def)
  have h: "th_history (pin_thread L a th) L a = th_history th L a" by (simp add: pin_thread_def)
  show ?case
  proof (cases "th_locked th")
    case True
    then show ?thesis using Cons.IH[of r] by (simp add: l)
  next
    case False
    show ?thesis
    proof (cases "raised (th_history th L a)")
      case None
      show ?thesis
      proof (cases "thread_hits_loop u (yielded (th_history th L a)) [] = []")
        case True
        then show ?thesis using False None Cons.IH[of r] by (simp add: l h Let_def)
      next
        case nh: False
        have "threads_loop u a L (map (pin_thread L a) ths)
                (map (apfst (pin_thread L a)) (r @ [(th, thread_hits_loop u (yielded (th_history th L a)) [])]))
              = map_sum (\<lambda>e. e) (map (apfst (pin_thread L a)))
                  (threads_loop u a L ths (r @ [(th, thread_hits_loop u (yielded (th_history th L a)) [])]))"
          by (rule Cons.IH)
        then show ?thesis using False None nh by (simp add: l h Let_def)
      qed
    next
      case (Some e)
      then show ?thesis using False Cons.IH[of r] by (simp add: l h Let_def)
    qed
  qed
qed

lemma add_thread_hits_pin:
  "add_thread_hits d (map (apfst (pin_thread L a)) r) st = add_thread_hits d r st"
proof (induction r arbitrary: st)
  case Nil
  then show ?case by simp
next
  case (Cons x r)
  obtain th m where x: "x = (th, m)" by (cases x)
  have "thread_line d (pin_thread L a th) m = thread_line d th m"
    by (simp add: thread_line_def pin_thread_def)
  then show ?case using Cons.IH by (simp add: x)
qed

lemma search_threads_pin:
  "search_active_threads_for_mentions (pin_threads L a ch) u a L
     = map_sum (\<lambda>e. e) (map (apfst (pin_thread L a))) (search_active_threads_for_mentions ch u a L)"
  using threads_loop_pin[of u a L "ch_threads ch" "[]"]
  by (simp add: search_active_threads_for_mentions_def pin_threads_def)

lemma channel_body_pin:
  "channel_body d u a lim inc cat (pin_threads (min lim 100) a ch) hdr st
     = channel_body d u a lim inc cat ch hdr st"
proof -
  have s: "search_channel_for_mentions (pin_threads (min lim 100) a ch) u a lim
             = search_channel_for_mentions ch u a lim"
    by (simp add: pin_threads_def search_channel_threads_update)
  have c: "\<And>hits. channel_line d (pin_threads (min lim 100) a ch) hits = channel_line d ch hits"
    by (simp add: pin_threads_def channel_line_threads_update)
  show ?thesis
  proof (cases "search_channel_for_mentions ch u a lim")
    case (Inl e)
    then show ?thesis by (simp add: channel_body_def s)
  next
    case (Inr hits)
    show ?thesis
    proof (cases "search_active_threads_for_mentions ch u a (min lim 100)")
      case (Inl e)
      then show ?thesis using Inr
        by (simp add: channel_body_def s c search_threads_pin Let_def)
    next
      case r: (Inr r)
      then show ?thesis using Inr
        by (simp add: channel_body_def s c search_threads_pin add_thread_hits_pin Let_def)
    qed
  qed
qed


lemma channels_loop_map:
  assumes "\<And>ch hdr st. ch \<in> set chs \<Longrightarrow>
             channel_body d u a lim inc cat (f ch) hdr st = channel_body d u a lim inc cat ch hdr st"
  shows "channels_loop d u a lim inc cat (map f chs) hdr st
           = channels_loop d u a lim inc cat chs hdr st"
  using assms
proof (induction chs arbitrary: hdr st)
  case Nil
  then show ?case by simp
next
  case (Cons ch chs)
  have b: "channel_body d u a lim inc cat (f ch) hdr st = channel_body d u a lim inc cat ch hdr st"
    by (rule Cons.prems) simp
  have ih: "\<And>hdr st. channels_loop d u a lim inc cat (map f chs) hdr st
           = channels_loop d u a lim inc cat chs hdr st"
    by (rule Cons.IH) (simp add: Cons.prems)
  show ?case by (simp add: b ih split: sum.split prod.split flow.split)
qed

lemma categories_loop_map:
  assumes "\<And>cat ch hdr st. cat \<in> set cats \<Longrightarrow> ch \<in> set (text_channels cat) \<Longrightarrow>
             channel_body d u a lim inc cat (f ch) hdr st = channel_body d u a lim inc cat ch hdr st"
  shows "categories_loop d u a lim inc (map (map_channels f) cats) st
           = categories_loop d u a lim inc cats st"
  using assms
proof (induction cats arbitrary: st)
  case Nil
  then show ?case by simp
next
  case (Cons cat cats)
  have "channels_loop d u a lim inc (map_channels f cat) (map f (text_channels cat)) False st
          = channels_loop d u a lim inc cat (map f (text_channels cat)) False st"
    by (rule channels_loop_cat) (simp_all add: map_channels_def)
  also have "\<dots> = channels_loop d u a lim inc cat (text_channels cat) False st"
    by (rule channels_loop_map) (simp add: Cons.prems)
  finally have c: "channels_loop d u a lim inc (map_channels f cat)
                     (text_channels (map_channels f cat)) False st
          = channels_loop d u a lim inc cat (text_channels cat) False st"
    by (simp add: map_channels_def)
  have ih: "\<And>st. categories_loop d u a lim inc (map (map_channels f) cats) st
           = categories_loop d u a lim inc cats st"
    by (rule Cons.IH) (simp add: Cons.prems)
  show ?case by (simp add: c ih split: sum.split del: channels_loop.simps)
qed

text \<open>
  C9: the threads of a channel are scanned only when \<open>include_threads\<close> is set and the
  channel itself has at least one hit, and then with the limit \<open>min(per_channel_limit, 100)\<close>:
  the outcome of the scan is the same whatever the threads of all other channels are, and
  it depends on a thread's history only at that limit.
\<close>

theorem threads_scanned_after_hits:
  assumes "\<forall>cat \<in> set cats. \<forall>ch \<in> set (text_channels cat).
             inc \<and> (\<exists>h. search_channel_for_mentions ch u a lim = Inr h \<and> h \<noteq> [])
               \<longrightarrow> g ch = ch_threads ch"
  shows "categories_loop d u a lim inc
           (map (map_channels (\<lambda>ch. ch\<lparr>ch_threads := g ch\<rparr>)) cats) st
           = categories_loop d u a lim inc cats st
       \<and> categories_loop d u a lim inc
           (map (map_channels (pin_threads (min lim 100) a)) cats) st
           = categories_loop d u a lim inc cats st"
proof
  show "categories_loop d u a lim inc
           (map (map_channels (\<lambda>ch. ch\<lparr>ch_threads := g ch\<rparr>)) cats) st
           = categories_loop d u a lim inc cats st"
  proof (rule categories_loop_map)
    fix cat ch hdr st
    assume m: "cat \<in> set cats" "ch \<in> set (text_channels cat)"
    show "channel_body d u a lim inc cat (ch\<lparr>ch_threads := g ch\<rparr>) hdr st
            = channel_body d u a lim inc cat ch hdr st"
    proof (cases "inc \<and> (\<exists>h. search_channel_for_mentions ch u a lim = Inr h \<and> h \<noteq> [])")
      case True
      with assms m have "g ch = ch_threads ch" by blast
      then show ?thesis by simp
    next
      case False
      then show ?thesis by (rule channel_body_threads_unused)
    qed
  qed
  show "categories_loop d u a lim inc
           (map (map_channels (pin_threads (min lim 100) a)) cats) st
           = categories_loop d u a lim inc cats st"
    by (rule categories_loop_map) (rule channel_body_pin)
qed

lemma quiet_no_hits: "search_channel_for_mentions ch_quiet u42 None 200 = Inr []"
  by code_simp

theorem threads_scanned_after_hits_witness:
  "categories_loop plain_decor u42 None 200 True
       (map (map_channels (\<lambda>ch. ch\<lparr>ch_threads := []\<rparr>)) [cat_quiet]) st0
     = categories_loop plain_decor u42 None 200 True [cat_quiet] st0
   \<and> categories_loop plain_decor u42 None 200 True [cat_quiet] st0 = Inr st0
   \<and> search_active_threads_for_mentions ch_quiet u42 None 100 = Inl OtherException
   \<and> categories_loop plain_decor u42 None 200 True [cat_limit] st0
       = Inr \<lparr>total_hits = 2,
              lines = [category_line cat_limit, channel_line plain_decor ch_limit [m_hit],
                       thread_line plain_decor th_limit [m_text]]\<rparr>
   \<and> categories_loop plain_decor u42 None 50 True [cat_limit] st0 = Inl OtherException"
proof -
  have h: "\<forall>cat \<in> set [cat_quiet]. \<forall>ch \<in> set (text_channels cat).
             True \<and> (\<exists>h. search_channel_for_mentions ch u42 None 200 = Inr h \<and> h \<noteq> [])
               \<longrightarrow> [] = ch_threads ch"
    by (simp add: cat_quiet_def quiet_no_hits)
  have q: "categories_loop plain_decor u42 None 200 True [cat_quiet] st0 = Inr st0"
    by code_simp
  have b: "search_active_threads_for_mentions ch_quiet u42 None 100 = Inl OtherException"
    by (simp add: search_active_threads_for_mentions_def ch_quiet_def th_boom_def
        isinstance_HTTPException_def)
  have l: "categories_loop plain_decor u42 None 200 True [cat_limit] st0
       = Inr \<lparr>total_hits = 2,
              lines = [category_line cat_limit, channel_line plain_decor ch_limit [m_hit],
                       thread_line plain_decor th_limit [m_text]]\<rparr>"
    by code_simp
  have l50: "categories_loop plain_decor u42 None 50 True [cat_limit] st0 = Inl OtherException"
    by code_simp
  from threads_scanned_after_hits[OF h, of plain_decor st0, THEN conjunct1] q b l l50
  show ?thesis by (simp only: simp_thms)
qed

section \<open>From the scan to the reply\<close>

text \<open>
  With an empty category spec and a time window in range, \<open>find_collabs\<close> scans the guild's
  categories from the empty state and, when there is a hit, hands the lines of the final
  state to the formatter.
\<close>

lemma find_collabs_reply:
  assumes "strip spec = []"
    and "max 0 days \<le> 999999999" and "0 \<le> now - max 0 days * DAY"
    and "categories_loop d u (Some (now - max 0 days * DAY)) lim inc (categories g) st0 = Inr st"
    and "total_hits st \<noteq> 0"
  shows "find_collabs d (Some g) u now spec days lim inc
           = Inr (build_report u days (total_hits st) (lines st))"
proof -
  have c: "categories_loop d u (Some (now - max 0 days * DAY)) lim inc (categories g)
             \<lparr>total_hits = 0, lines = []\<rparr> = Inr st"
    using assms(4) by (simp add: st0_def)
  have r: "\<not> (max 0 days > 999999999 \<or> now - max 0 days * DAY < 0)"
    using assms(2,3) by simp
  show ?thesis
    unfolding find_collabs_def using assms(1,5) r by (simp add: c)
qed

lemma find_collabs_outside_server:
  "find_collabs d None u now spec days lim inc
     = Inr (Send_text ''This command must be used in a server.'')"
  by (simp add: find_collabs_def)

end
